theory Spec2Isabelle
  imports Complex_Main
begin

section \<open>The work-division scheduler (fake_thread_pool.h)\<close>

text \<open>
  A \<^verbatim>\<open>work_division\<close> is the pair the scheduler hands to a task: the index of the
  division and the number of divisions. The header that declares it is not part of the
  sources; the scheduler builds it as \<^verbatim>\<open>work_division { i, max_threads }\<close>.
  \<^verbatim>\<open>size_type\<close> is modelled by \<^typ>\<open>nat\<close>: the only subtraction of the scheduler,
  \<^verbatim>\<open>max_threads - 1\<close>, is taken on a value the constructor has made non-zero.
\<close>

datatype work_division = Work_Division (div_index: nat) (div_count: nat)

text \<open>
  What one call of the scheduler does, in program order: it starts a thread that runs the
  task on a division (\<open>Spawn k d\<close>, the \<open>k\<close>-th element of \<^verbatim>\<open>threads\<close>), it runs the task
  itself on a division and waits for it (\<open>Call d\<close>), it joins a thread (\<open>Join k\<close>).
  The task and its forwarded arguments do not influence the scheduler, so they are not
  part of the event.
\<close>

datatype sched_event = Spawn nat work_division | Call work_division | Join nat

text \<open>The constructor, line 20: \<^verbatim>\<open>max_threads(max_threads_ ? max_threads_ : 1)\<close>.\<close>

definition fake_task_scheduler :: "nat \<Rightarrow> nat" where
  "fake_task_scheduler max_threads_arg = (if max_threads_arg \<noteq> 0 then max_threads_arg else 1)"

text \<open>
  The loop of lines 30 to 35: \<^verbatim>\<open>for (i = 0; i < max_threads - 1; i++)\<close>, each round
  appending one thread to \<^verbatim>\<open>threads\<close>.
\<close>

function spawn_threads :: "nat \<Rightarrow> nat \<Rightarrow> work_division list \<Rightarrow> work_division list" where
  "spawn_threads max_threads i threads =
     (if i < max_threads - 1
      then spawn_threads max_threads (Suc i) (threads @ [Work_Division i max_threads])
      else threads)"
  by pat_completeness auto
termination
  by (relation "measure (\<lambda>(max_threads, i, threads). max_threads - 1 - i)") auto

declare spawn_threads.simps [simp del]

text \<open>
  \<^verbatim>\<open>operator()\<close>, lines 26 to 42, on a scheduler whose field is \<open>max_threads\<close>: the spawn
  loop, the synchronous call on the last division, the join loop over \<^verbatim>\<open>threads\<close>.
\<close>

definition run_task :: "nat \<Rightarrow> sched_event list" where
  "run_task max_threads =
     (let threads = spawn_threads max_threads 0 []
      in map (\<lambda>(k, d). Spawn k d) (zip [0..<length threads] threads)
         @ [Call (Work_Division (max_threads - 1) max_threads)]
         @ map Join [0..<length threads])"

text \<open>Constructing a scheduler with a limit and calling it once.\<close>

definition schedule :: "nat \<Rightarrow> sched_event list" where
  "schedule max_threads_arg = run_task (fake_task_scheduler max_threads_arg)"

text \<open>The divisions the task was invoked on, the threads started and the threads joined.\<close>

fun invocations :: "sched_event list \<Rightarrow> work_division list" where
  "invocations [] = []"
| "invocations (Spawn k d # es) = d # invocations es"
| "invocations (Call d # es) = d # invocations es"
| "invocations (Join k # es) = invocations es"

fun spawned :: "sched_event list \<Rightarrow> nat list" where
  "spawned [] = []"
| "spawned (Spawn k d # es) = k # spawned es"
| "spawned (Call d # es) = spawned es"
| "spawned (Join k # es) = spawned es"

fun joined :: "sched_event list \<Rightarrow> nat list" where
  "joined [] = []"
| "joined (Spawn k d # es) = joined es"
| "joined (Call d # es) = joined es"
| "joined (Join k # es) = k # joined es"

section \<open>The hierarchy (consumed by lbvh_test.cpp)\<close>

text \<open>
  The library header is not part of the sources. The validator uses of it: a node's
  \<^verbatim>\<open>box\<close>, \<^verbatim>\<open>left\<close> and \<^verbatim>\<open>right\<close>; the predicates \<^verbatim>\<open>left_is_leaf()\<close> and
  \<^verbatim>\<open>right_is_leaf()\<close>; \<^verbatim>\<open>left_leaf_index()\<close> and \<^verbatim>\<open>right_leaf_index()\<close>; and of
  the hierarchy \<^verbatim>\<open>size()\<close>, \<^verbatim>\<open>at(i)\<close> and \<^verbatim>\<open>operator[]\<close>. A child reference is
  tagged as an internal-node index or a leaf index, so it is a datatype here, and the
  tests on the tag are case distinctions.

  The scalar type \<^verbatim>\<open>float\<close> is the type variable \<open>'f\<close>. The validator subtracts,
  multiplies and compares scalars with \<^verbatim>\<open><\<close>; these are the operations \<open>-\<close>, \<open>*\<close>
  and \<open><\<close> of \<open>'f\<close>, of which nothing is assumed: no law of arithmetic and no law of
  order. So what is proved holds whatever the machine computes for them, with its
  rounding of every difference and product, its infinities and its NaN, for which every
  comparison is false.
\<close>

datatype 'f vec3 = Vec3 (vx: 'f) (vy: 'f) (vz: 'f)

datatype 'f aabb = Aabb (box_min: "'f vec3") (box_max: "'f vec3")

datatype child = Node_ref nat | Leaf_ref nat

record 'f node =
  box :: "'f aabb"
  left :: child
  right :: child

text \<open>
  Modelled from the spec: \<^verbatim>\<open>detail::size_of\<close> is declared in the missing header; the
  volume is "the product of the bounding box's three extents", so \<open>size_of\<close> is the
  extent of the box along each axis.
\<close>

definition size_of :: "'f::minus aabb \<Rightarrow> 'f vec3" where
  "size_of b =
     Vec3 (vx (box_max b) - vx (box_min b))
          (vy (box_max b) - vy (box_min b))
          (vz (box_max b) - vz (box_min b))"

text \<open>\<^verbatim>\<open>volume_of\<close>, lines 18 to 21.\<close>

definition volume_of :: "'f::{minus,times} aabb \<Rightarrow> 'f" where
  "volume_of b = (let size = size_of b in vx size * vy size * vz size)"

datatype exit_status = EXIT_SUCCESS | EXIT_FAILURE

text \<open>
  How a run ends without returning: \<open>Out_Of_Range i\<close> is the exception of a checked
  access \<^verbatim>\<open>.at(i)\<close>; \<open>Counter_Out_Of_Bounds i\<close> is an unchecked read \<^verbatim>\<open>node_counts[i]\<close>
  outside the vector; \<open>Node_Out_Of_Bounds i\<close> is an unchecked read \<^verbatim>\<open>bvh[i]\<close> outside
  the node array.
\<close>

datatype fault = Out_Of_Range nat | Counter_Out_Of_Bounds nat | Node_Out_Of_Bounds nat

text \<open>
  What the validator prints, one event for each diagnostic, in the order printed. \<open>Visit i\<close>
  is not printed: it marks a call of \<^verbatim>\<open>check_bvh_volumes\<close> on node \<open>i\<close>.
\<close>

datatype 'f event =
    Root_Referenced nat
  | Node_Counted nat nat
  | Leaf_Referenced nat nat
  | Left_Volume nat nat 'f 'f
  | Right_Volume nat nat 'f 'f
  | Visit nat

type_synonym 'f outcome = "fault + exit_status \<times> 'f event list"

text \<open>\<^verbatim>\<open>bvh.at(index)\<close>: the checked access.\<close>

definition bvh_at :: "'f node list \<Rightarrow> nat \<Rightarrow> fault + 'f node" where
  "bvh_at b i = (if i < length b then Inr (b ! i) else Inl (Out_Of_Range i))"

text \<open>
  \<^verbatim>\<open>bvh[i]\<close>: the unchecked access. What it yields outside the array is decided by the
  missing header and by the memory behind the array, so it is a parameter: \<open>None\<close> when
  the read faults, \<open>Some g\<close> when it yields the node-shaped bytes \<open>g\<close> found there.
\<close>

definition bvh_index :: "'f node option \<Rightarrow> 'f node list \<Rightarrow> nat \<Rightarrow> fault + 'f node" where
  "bvh_index past_end b i =
     (if i < length b then Inr (b ! i)
      else case past_end of None \<Rightarrow> Inl (Node_Out_Of_Bounds i) | Some g \<Rightarrow> Inr g)"

text \<open>\<^verbatim>\<open>counts.at(k)++\<close> on a vector of counters.\<close>

definition increment_at :: "nat list \<Rightarrow> nat \<Rightarrow> fault + nat list" where
  "increment_at counts k =
     (if k < length counts then Inr (counts[k := counts ! k + 1]) else Inl (Out_Of_Range k))"

section \<open>Phase 2: check_bvh_volumes\<close>

text \<open>
  Lines 37 to 59: the volume of the node against the volume of each child that is an
  internal node; the result is what is printed (\<^verbatim>\<open>errors\<close> is the number of events).
\<close>

definition compare_volumes ::
  "'f::{minus,times,ord} node list \<Rightarrow> nat \<Rightarrow> 'f node \<Rightarrow> fault + 'f event list" where
  "compare_volumes b index n =
     (let parent_volume = volume_of (box n) in
      case (case left n of
              Leaf_ref _ \<Rightarrow> Inr []
            | Node_ref l \<Rightarrow>
                (case bvh_at b l of
                   Inl e \<Rightarrow> Inl e
                 | Inr left_node \<Rightarrow>
                     (let left_volume = volume_of (box left_node) in
                      Inr (if parent_volume < left_volume
                           then [Left_Volume index l parent_volume left_volume] else [])))) of
        Inl e \<Rightarrow> Inl e
      | Inr left_errors \<Rightarrow>
          (case right n of
             Leaf_ref _ \<Rightarrow> Inr left_errors
           | Node_ref r \<Rightarrow>
               (case bvh_at b r of
                  Inl e \<Rightarrow> Inl e
                | Inr right_node \<Rightarrow>
                    (let right_volume = volume_of (box right_node) in
                     Inr (left_errors @
                          (if parent_volume < right_volume
                           then [Right_Volume index r parent_volume right_volume] else []))))))"

text \<open>
  \<^verbatim>\<open>check_bvh_volumes\<close>, lines 33 to 86. The recursion follows the child references of
  the array and need not end, so the first argument bounds the depth of the calls: \<open>None\<close>
  is a run that needs a deeper recursion than that. A child that is a leaf is not
  descended into, which leaves \<^verbatim>\<open>exit_code\<close> as it is.
\<close>

fun check_bvh_volumes ::
  "nat \<Rightarrow> 'f::{minus,times,ord} node list \<Rightarrow> bool \<Rightarrow> nat \<Rightarrow> 'f outcome option" where
  "check_bvh_volumes 0 b errors_fatal index = None"
| "check_bvh_volumes (Suc depth) b errors_fatal index =
     (case bvh_at b index of
        Inl e \<Rightarrow> Some (Inl e)
      | Inr n \<Rightarrow>
          (case compare_volumes b index n of
             Inl e \<Rightarrow> Some (Inl e)
           | Inr errors \<Rightarrow>
               if errors \<noteq> [] \<and> errors_fatal then Some (Inr (EXIT_FAILURE, Visit index # errors))
               else
                 (case (case left n of
                          Leaf_ref _ \<Rightarrow> Some (Inr (EXIT_SUCCESS, []))
                        | Node_ref l \<Rightarrow> check_bvh_volumes depth b errors_fatal l) of
                    None \<Rightarrow> None
                  | Some (Inl e) \<Rightarrow> Some (Inl e)
                  | Some (Inr (ret_l, log_l)) \<Rightarrow>
                      if ret_l \<noteq> EXIT_SUCCESS \<and> errors_fatal
                      then Some (Inr (ret_l, Visit index # errors @ log_l))
                      else
                        (case (case right n of
                                 Leaf_ref _ \<Rightarrow> Some (Inr (EXIT_SUCCESS, []))
                               | Node_ref r \<Rightarrow> check_bvh_volumes depth b errors_fatal r) of
                           None \<Rightarrow> None
                         | Some (Inl e) \<Rightarrow> Some (Inl e)
                         | Some (Inr (ret_r, log_r)) \<Rightarrow>
                             Some (Inr
                               (if ret_r \<noteq> EXIT_SUCCESS then ret_r
                                else if ret_l \<noteq> EXIT_SUCCESS then ret_l
                                else if errors \<noteq> [] then EXIT_FAILURE else EXIT_SUCCESS,
                                Visit index # errors @ log_l @ log_r))))))"

section \<open>Phase 1: check_bvh\<close>

text \<open>The body of the loop of lines 104 to 113, on one node.\<close>

definition count_node_refs :: "'f node \<Rightarrow> nat list \<Rightarrow> fault + nat list" where
  "count_node_refs n node_counts =
     (case (case left n of
              Node_ref l \<Rightarrow> increment_at node_counts l
            | Leaf_ref _ \<Rightarrow> Inr node_counts) of
        Inl e \<Rightarrow> Inl e
      | Inr counts \<Rightarrow>
          (case right n of
             Node_ref r \<Rightarrow> increment_at counts r
           | Leaf_ref _ \<Rightarrow> Inr counts))"

text \<open>The loop of lines 104 to 113: \<^verbatim>\<open>for (i = 0; i < bvh.size(); i++)\<close>.\<close>

function count_nodes :: "'f node list \<Rightarrow> nat \<Rightarrow> nat list \<Rightarrow> fault + nat list" where
  "count_nodes b i node_counts =
     (if i < length b
      then (case count_node_refs (b ! i) node_counts of
              Inl e \<Rightarrow> Inl e
            | Inr counts \<Rightarrow> count_nodes b (Suc i) counts)
      else Inr node_counts)"
  by pat_completeness auto
termination
  by (relation "measure (\<lambda>(b, i, node_counts). length b - i)") auto

declare count_nodes.simps [simp del]

text \<open>
  How a checking loop ends: it returned from \<^verbatim>\<open>check_bvh\<close> with a status, or it ran to
  its end with \<^verbatim>\<open>errors\<close> and what was printed so far.
\<close>

datatype 'f loop_end = Returned exit_status "'f event list" | Completed nat "'f event list"

text \<open>The loop of lines 122 to 134: \<^verbatim>\<open>for (i = 1; i < node_counts.size(); i++)\<close>.\<close>

function check_node_counts ::
  "bool \<Rightarrow> nat list \<Rightarrow> nat \<Rightarrow> nat \<Rightarrow> 'f event list \<Rightarrow> 'f loop_end" where
  "check_node_counts errors_fatal node_counts i errors out =
     (if i < length node_counts
      then (let n = node_counts ! i in
            if n \<noteq> 1
            then (if errors_fatal then Returned EXIT_FAILURE (out @ [Node_Counted i n])
                  else check_node_counts errors_fatal node_counts (Suc i) (errors + 1)
                         (out @ [Node_Counted i n]))
            else check_node_counts errors_fatal node_counts (Suc i) errors out)
      else Completed errors out)"
  by pat_completeness auto
termination
  by (relation "measure (\<lambda>(errors_fatal, node_counts, i, errors, out). length node_counts - i)")
     auto

declare check_node_counts.simps [simp del]

text \<open>The body of the loop of lines 138 to 147, on the node read.\<close>

definition count_leaf_refs :: "'f node \<Rightarrow> nat list \<Rightarrow> fault + nat list" where
  "count_leaf_refs n leaf_counts =
     (case (case left n of
              Leaf_ref k \<Rightarrow> increment_at leaf_counts k
            | Node_ref _ \<Rightarrow> Inr leaf_counts) of
        Inl e \<Rightarrow> Inl e
      | Inr counts \<Rightarrow>
          (case right n of
             Leaf_ref k \<Rightarrow> increment_at counts k
           | Node_ref _ \<Rightarrow> Inr counts))"

text \<open>
  The loop of lines 138 to 147: \<^verbatim>\<open>for (i = 0; i < bvh.size() + 1; i++)\<close>, reading
  \<^verbatim>\<open>bvh[i]\<close> in each round.
\<close>

function count_leaves ::
  "'f node option \<Rightarrow> 'f node list \<Rightarrow> nat \<Rightarrow> nat list \<Rightarrow> fault + nat list" where
  "count_leaves past_end b i leaf_counts =
     (if i < length b + 1
      then (case bvh_index past_end b i of
              Inl e \<Rightarrow> Inl e
            | Inr n \<Rightarrow>
                (case count_leaf_refs n leaf_counts of
                   Inl e \<Rightarrow> Inl e
                 | Inr counts \<Rightarrow> count_leaves past_end b (Suc i) counts))
      else Inr leaf_counts)"
  by pat_completeness auto
termination
  by (relation "measure (\<lambda>(past_end, b, i, leaf_counts). length b + 1 - i)") auto

declare count_leaves.simps [simp del]

text \<open>
  The loop of lines 149 to 159: \<^verbatim>\<open>for (i = 0; i < bvh.size() + 1; i++)\<close> over
  \<^verbatim>\<open>leaf_counts\<close>, which has \<^verbatim>\<open>bvh.size() + 1\<close> elements.
\<close>

function check_leaf_counts ::
  "bool \<Rightarrow> 'f node list \<Rightarrow> nat list \<Rightarrow> nat \<Rightarrow> nat \<Rightarrow> 'f event list \<Rightarrow> 'f loop_end" where
  "check_leaf_counts errors_fatal b leaf_counts i errors out =
     (if i < length b + 1
      then (let n = leaf_counts ! i in
            if n \<noteq> 1
            then (if errors_fatal then Returned EXIT_FAILURE (out @ [Leaf_Referenced i n])
                  else check_leaf_counts errors_fatal b leaf_counts (Suc i) (errors + 1)
                         (out @ [Leaf_Referenced i n]))
            else check_leaf_counts errors_fatal b leaf_counts (Suc i) errors out)
      else Completed errors out)"
  by pat_completeness auto
termination
  by (relation "measure (\<lambda>(errors_fatal, b, leaf_counts, i, errors, out). length b + 1 - i)")
     auto

declare check_leaf_counts.simps [simp del]

text \<open>
  \<^verbatim>\<open>check_bvh\<close>, lines 98 to 166. \<open>depth\<close> bounds the recursion of phase 2 and
  \<open>past_end\<close> is what \<^verbatim>\<open>bvh[bvh.size()]\<close> yields. \<^verbatim>\<open>node_counts[0]\<close> is an unchecked
  read of a \<^verbatim>\<open>std::vector\<close>, outside it when the hierarchy has no node.
\<close>

definition check_bvh ::
  "nat \<Rightarrow> 'f::{minus,times,ord} node option \<Rightarrow> 'f node list \<Rightarrow> bool \<Rightarrow> 'f outcome option" where
  "check_bvh depth past_end b errors_fatal =
     (case count_nodes b 0 (replicate (length b) 0) of
        Inl e \<Rightarrow> Some (Inl e)
      | Inr node_counts \<Rightarrow>
          if node_counts = [] then Some (Inl (Counter_Out_Of_Bounds 0))
          else
            (let root_log =
               (if node_counts ! 0 > 0 then [Root_Referenced (node_counts ! 0)] else [])
             in
             if node_counts ! 0 > 0 \<and> errors_fatal then Some (Inr (EXIT_FAILURE, root_log))
             else
               (case check_node_counts errors_fatal node_counts 1 0 root_log of
                  Returned status out \<Rightarrow> Some (Inr (status, out))
                | Completed node_errors node_log \<Rightarrow>
                    (case count_leaves past_end b 0 (replicate (length b + 1) 0) of
                       Inl e \<Rightarrow> Some (Inl e)
                     | Inr leaf_counts \<Rightarrow>
                         (case check_leaf_counts errors_fatal b leaf_counts 0 node_errors
                                 node_log of
                            Returned status out \<Rightarrow> Some (Inr (status, out))
                          | Completed errors out \<Rightarrow>
                              if errors \<noteq> 0 then Some (Inr (EXIT_FAILURE, out))
                              else
                                (case check_bvh_volumes depth b errors_fatal 0 of
                                   None \<Rightarrow> None
                                 | Some (Inl e) \<Rightarrow> Some (Inl e)
                                 | Some (Inr (status, volume_log)) \<Rightarrow>
                                     Some (Inr (status, out @ volume_log))))))))"

section \<open>The tree behind a node array\<close>

text \<open>
  One step of the descent of \<^verbatim>\<open>check_bvh_volumes\<close> into a child: nothing for a leaf,
  the recursive call for an internal node.
\<close>

definition descend ::
  "nat \<Rightarrow> 'f::{minus,times,ord} node list \<Rightarrow> bool \<Rightarrow> child \<Rightarrow> 'f outcome option" where
  "descend depth b errors_fatal c =
     (case c of
        Leaf_ref _ \<Rightarrow> Some (Inr (EXIT_SUCCESS, []))
      | Node_ref j \<Rightarrow> check_bvh_volumes depth b errors_fatal j)"

text \<open>The nodes a run of \<^verbatim>\<open>check_bvh_volumes\<close> was called on, in the order of the calls.\<close>

fun visits :: "'f event list \<Rightarrow> nat list" where
  "visits [] = []"
| "visits (Visit i # es) = i # visits es"
| "visits (e # es) = visits es"

text \<open>
  A parent/child volume violation at node \<open>i\<close>: for a child that is an internal node,
  the volume of \<open>i\<close> compares less than the volume of the child, with the \<^verbatim>\<open><\<close> of the
  scalars on the volumes as \<^verbatim>\<open>volume_of\<close> computes them.
\<close>

definition volume_violation :: "'f::{minus,times,ord} node list \<Rightarrow> nat \<Rightarrow> bool" where
  "volume_violation b i =
     ((case left (b ! i) of
         Node_ref l \<Rightarrow> volume_of (box (b ! i)) < volume_of (box (b ! l))
       | Leaf_ref _ \<Rightarrow> False)
      \<or> (case right (b ! i) of
            Node_ref r \<Rightarrow> volume_of (box (b ! i)) < volume_of (box (b ! r))
          | Leaf_ref _ \<Rightarrow> False))"

text \<open>A child reference that \<^verbatim>\<open>bvh.at\<close> accepts when it is followed.\<close>

definition in_array :: "'f node list \<Rightarrow> child \<Rightarrow> bool" where
  "in_array b c = (case c of Node_ref j \<Rightarrow> j < length b | Leaf_ref _ \<Rightarrow> True)"

text \<open>
  The binary tree a node array encodes below node \<open>i\<close>, when following the child
  references from \<open>i\<close> stays inside the array and ends in leaves within \<open>depth\<close> steps.
\<close>

datatype hier = Leaf nat | Inner nat hier hier

fun tree_at :: "nat \<Rightarrow> 'f node list \<Rightarrow> nat \<Rightarrow> hier option" where
  "tree_at 0 b i = None"
| "tree_at (Suc depth) b i =
     (if i < length b
      then (case (case left (b ! i) of
                    Leaf_ref k \<Rightarrow> Some (Leaf k)
                  | Node_ref l \<Rightarrow> tree_at depth b l) of
              None \<Rightarrow> None
            | Some t_left \<Rightarrow>
                (case (case right (b ! i) of
                         Leaf_ref k \<Rightarrow> Some (Leaf k)
                       | Node_ref r \<Rightarrow> tree_at depth b r) of
                   None \<Rightarrow> None
                 | Some t_right \<Rightarrow> Some (Inner i t_left t_right)))
      else None)"

definition child_tree :: "nat \<Rightarrow> 'f node list \<Rightarrow> child \<Rightarrow> hier option" where
  "child_tree depth b c =
     (case c of Leaf_ref k \<Rightarrow> Some (Leaf k) | Node_ref j \<Rightarrow> tree_at depth b j)"

text \<open>The internal nodes of a tree, parent first, then the left and the right subtree.\<close>

fun inner_nodes :: "hier \<Rightarrow> nat list" where
  "inner_nodes (Leaf k) = []"
| "inner_nodes (Inner i t_left t_right) = i # inner_nodes t_left @ inner_nodes t_right"

text \<open>
  The nodes that the child references lead to from node \<open>i\<close>, through internal nodes of
  the array.
\<close>

inductive reachable :: "'f node list \<Rightarrow> nat \<Rightarrow> nat \<Rightarrow> bool" for b :: "'f node list" where
  here: "reachable b i i"
| through_left: "i < length b \<Longrightarrow> left (b ! i) = Node_ref l \<Longrightarrow> reachable b l j \<Longrightarrow> reachable b i j"
| through_right: "i < length b \<Longrightarrow> right (b ! i) = Node_ref r \<Longrightarrow> reachable b r j \<Longrightarrow> reachable b i j"

section \<open>Example hierarchies\<close>

text \<open>
  The examples take \<^typ>\<open>real\<close> for the scalars, on cubes with the corners 0 and 1, 2
  or 3: their extents and the products 1, 8 and 27 are small integers, on which the
  arithmetic of \<^verbatim>\<open>float\<close> is exact and agrees with that of \<^typ>\<open>real\<close>.
\<close>

definition unit_box :: "real aabb" where
  "unit_box = Aabb (Vec3 0 0 0) (Vec3 1 1 1)"

definition big_box :: "real aabb" where
  "big_box = Aabb (Vec3 0 0 0) (Vec3 2 2 2)"

definition huge_box :: "real aabb" where
  "huge_box = Aabb (Vec3 0 0 0) (Vec3 3 3 3)"

text \<open>
  Two nodes that may lie behind the array: one of zero bytes, whose child references are
  untagged, and one whose left reference carries the leaf tag.
\<close>

definition blank_node :: "real node" where
  "blank_node = \<lparr>box = Aabb (Vec3 0 0 0) (Vec3 0 0 0), left = Node_ref 0, right = Node_ref 0\<rparr>"

definition stray_leaf :: "real node" where
  "stray_leaf = \<lparr>box = Aabb (Vec3 0 0 0) (Vec3 0 0 0), left = Leaf_ref 3, right = Node_ref 0\<rparr>"

text \<open>The smallest hierarchy: one node over the leaves 0 and 1.\<close>

definition two_leaves :: "real node list" where
  "two_leaves = [\<lparr>box = unit_box, left = Leaf_ref 0, right = Leaf_ref 1\<rparr>]"

text \<open>A hierarchy over three leaves, the child of the root inside the root's box.\<close>

definition three_leaves :: "real node list" where
  "three_leaves =
     [\<lparr>box = big_box, left = Node_ref 1, right = Leaf_ref 2\<rparr>,
      \<lparr>box = unit_box, left = Leaf_ref 0, right = Leaf_ref 1\<rparr>]"

text \<open>
  Two hierarchies over four leaves with an inner child larger than the root: the left
  child in the first, the right child in the second.
\<close>

definition inflated :: "real node list" where
  "inflated =
     [\<lparr>box = unit_box, left = Node_ref 1, right = Node_ref 2\<rparr>,
      \<lparr>box = big_box, left = Leaf_ref 0, right = Leaf_ref 1\<rparr>,
      \<lparr>box = unit_box, left = Leaf_ref 2, right = Leaf_ref 3\<rparr>]"

definition inflated_right :: "real node list" where
  "inflated_right =
     [\<lparr>box = unit_box, left = Node_ref 1, right = Node_ref 2\<rparr>,
      \<lparr>box = unit_box, left = Leaf_ref 0, right = Leaf_ref 1\<rparr>,
      \<lparr>box = big_box, left = Leaf_ref 2, right = Leaf_ref 3\<rparr>]"

text \<open>
  Two hierarchies over five leaves in which node 1 is smaller than its child, node 3:
  node 1 is the left child of the root in the first and the right child in the second.
\<close>

definition left_fails :: "real node list" where
  "left_fails =
     [\<lparr>box = huge_box, left = Node_ref 1, right = Node_ref 2\<rparr>,
      \<lparr>box = unit_box, left = Node_ref 3, right = Leaf_ref 0\<rparr>,
      \<lparr>box = unit_box, left = Leaf_ref 1, right = Leaf_ref 2\<rparr>,
      \<lparr>box = big_box, left = Leaf_ref 3, right = Leaf_ref 4\<rparr>]"

definition right_fails :: "real node list" where
  "right_fails =
     [\<lparr>box = huge_box, left = Node_ref 2, right = Node_ref 1\<rparr>,
      \<lparr>box = unit_box, left = Node_ref 3, right = Leaf_ref 0\<rparr>,
      \<lparr>box = unit_box, left = Leaf_ref 1, right = Leaf_ref 2\<rparr>,
      \<lparr>box = big_box, left = Leaf_ref 3, right = Leaf_ref 4\<rparr>]"

text \<open>
  Node arrays that are not trees. In the first, nodes 1 and 2 refer to each other and
  the root reaches neither; every reference count is as required. In the second, node 2
  also refers to the root. In the third, leaf 0 is referenced twice and leaf 1 never.
\<close>

definition detached_cycle :: "real node list" where
  "detached_cycle =
     [\<lparr>box = unit_box, left = Leaf_ref 0, right = Leaf_ref 1\<rparr>,
      \<lparr>box = unit_box, left = Node_ref 2, right = Leaf_ref 2\<rparr>,
      \<lparr>box = big_box, left = Node_ref 1, right = Leaf_ref 3\<rparr>]"

definition root_referenced :: "real node list" where
  "root_referenced =
     [\<lparr>box = unit_box, left = Leaf_ref 0, right = Leaf_ref 1\<rparr>,
      \<lparr>box = unit_box, left = Node_ref 2, right = Leaf_ref 2\<rparr>,
      \<lparr>box = unit_box, left = Node_ref 1, right = Node_ref 0\<rparr>]"

definition duplicate_leaf :: "real node list" where
  "duplicate_leaf = [\<lparr>box = unit_box, left = Leaf_ref 0, right = Leaf_ref 0\<rparr>]"

section \<open>Properties of the scheduler\<close>

lemma spawn_threads_eq:
  "spawn_threads m i ts = ts @ map (\<lambda>j. Work_Division j m) [i..<m - 1]"
proof (induction m i ts rule: spawn_threads.induct)
  case (1 m i ts)
  show ?case
  proof (cases "i < m - 1")
    case True
    then have "spawn_threads m i ts = spawn_threads m (Suc i) (ts @ [Work_Division i m])"
      by (subst spawn_threads.simps) simp
    with 1 True show ?thesis
      by (simp add: upt_conv_Cons)
  next
    case False
    then show ?thesis
      by (subst spawn_threads.simps) simp
  qed
qed

lemma zip_map_self: "zip xs (map f xs) = map (\<lambda>x. (x, f x)) xs"
  by (induction xs) auto

lemma run_task_eq:
  "run_task m =
     map (\<lambda>i. Spawn i (Work_Division i m)) [0..<m - 1]
     @ [Call (Work_Division (m - 1) m)]
     @ map Join [0..<m - 1]"
  by (simp add: run_task_def spawn_threads_eq zip_map_self)

lemma invocations_append: "invocations (xs @ ys) = invocations xs @ invocations ys"
  by (induction xs rule: invocations.induct) auto

lemma invocations_spawns: "invocations (map (\<lambda>i. Spawn (f i) (g i)) xs) = map g xs"
  by (induction xs) auto

lemma invocations_joins: "invocations (map Join xs) = []"
  by (induction xs) auto

lemma spawned_append: "spawned (xs @ ys) = spawned xs @ spawned ys"
  by (induction xs rule: spawned.induct) auto

lemma spawned_spawns: "spawned (map (\<lambda>i. Spawn i (g i)) xs) = xs"
  by (induction xs) auto

lemma spawned_joins: "spawned (map Join xs) = []"
  by (induction xs) auto

lemma joined_append: "joined (xs @ ys) = joined xs @ joined ys"
  by (induction xs rule: joined.induct) auto

lemma joined_spawns: "joined (map (\<lambda>i. Spawn (f i) (g i)) xs) = []"
  by (induction xs) auto

lemma joined_joins: "joined (map Join xs) = xs"
  by (induction xs) auto

text \<open>
  C4: for every worker-count limit \<open>W \<ge> 1\<close>, one call of the scheduler starts
  \<open>W - 1\<close> threads on the divisions \<open>{0, W}\<close> to \<open>{W - 2, W}\<close>, calls the task itself on
  \<open>{W - 1, W}\<close> and then joins every thread it started, in this order. So the task is
  invoked \<open>W\<close> times, once on each division \<open>{i, W}\<close> with \<open>i < W\<close>, without repeats or
  gaps, and each invocation is either the synchronous call or a thread that is joined
  before the call returns.
\<close>

theorem schedule_divisions:
  assumes "1 \<le> W"
  shows "schedule W =
           map (\<lambda>i. Spawn i (Work_Division i W)) [0..<W - 1]
           @ [Call (Work_Division (W - 1) W)]
           @ map Join [0..<W - 1]
         \<and> invocations (schedule W) = map (\<lambda>i. Work_Division i W) [0..<W]
         \<and> length (invocations (schedule W)) = W
         \<and> distinct (invocations (schedule W))
         \<and> joined (schedule W) = spawned (schedule W)"
proof -
  from assms have W: "fake_task_scheduler W = W"
    by (simp add: fake_task_scheduler_def)
  have trace: "schedule W =
           map (\<lambda>i. Spawn i (Work_Division i W)) [0..<W - 1]
           @ [Call (Work_Division (W - 1) W)]
           @ map Join [0..<W - 1]"
    by (simp add: schedule_def W run_task_eq)
  from assms have upt: "[0..<W] = [0..<W - 1] @ [W - 1]"
    by (cases W) simp_all
  have inv: "invocations (schedule W) = map (\<lambda>i. Work_Division i W) [0..<W]"
    unfolding trace
    by (subst upt) (simp add: invocations_append invocations_spawns invocations_joins)
  have "inj_on (\<lambda>i. Work_Division i W) (set [0..<W])"
    by (simp add: inj_on_def)
  then have dist: "distinct (invocations (schedule W))"
    unfolding inv by (simp add: distinct_map)
  have joins: "joined (schedule W) = spawned (schedule W)"
    unfolding trace
    by (simp add: joined_append joined_spawns joined_joins spawned_append spawned_spawns
        spawned_joins)
  from trace inv dist joins show ?thesis
    by simp
qed

theorem schedule_divisions_witness:
  "(1::nat) \<le> 4
   \<and> schedule 4 =
       [Spawn 0 (Work_Division 0 4), Spawn 1 (Work_Division 1 4), Spawn 2 (Work_Division 2 4),
        Call (Work_Division 3 4), Join 0, Join 1, Join 2]
   \<and> invocations (schedule 4) =
       [Work_Division 0 4, Work_Division 1 4, Work_Division 2 4, Work_Division 3 4]"
  using schedule_divisions [of 4] by (simp add: upt_conv_Cons)

text \<open>
  C5: a scheduler constructed with the limit 0 has the same field as one constructed with
  the limit 1 and behaves as it does: no thread is started and the task is invoked once,
  by the caller, on the division \<open>{0, 1}\<close>.
\<close>

theorem schedule_zero_is_schedule_one:
  "fake_task_scheduler 0 = fake_task_scheduler 1
   \<and> schedule 0 = schedule 1
   \<and> schedule 0 = [Call (Work_Division 0 1)]
   \<and> invocations (schedule 0) = [Work_Division 0 1]
   \<and> spawned (schedule 0) = []"
  by (simp add: schedule_def fake_task_scheduler_def run_task_eq)

section \<open>Properties of the volume audit\<close>

lemma volume_of_unit_box: "volume_of unit_box = 1"
  by (simp add: volume_of_def size_of_def unit_box_def)

lemma volume_of_big_box: "volume_of big_box = 8"
  by (simp add: volume_of_def size_of_def big_box_def)

lemma volume_of_huge_box: "volume_of huge_box = 27"
  by (simp add: volume_of_def size_of_def huge_box_def)

lemmas volumes = volume_of_unit_box volume_of_big_box volume_of_huge_box

lemma check_bvh_volumes_Suc:
  "check_bvh_volumes (Suc depth) b errors_fatal index =
     (case bvh_at b index of
        Inl e \<Rightarrow> Some (Inl e)
      | Inr n \<Rightarrow>
          (case compare_volumes b index n of
             Inl e \<Rightarrow> Some (Inl e)
           | Inr errors \<Rightarrow>
               if errors \<noteq> [] \<and> errors_fatal then Some (Inr (EXIT_FAILURE, Visit index # errors))
               else
                 (case descend depth b errors_fatal (left n) of
                    None \<Rightarrow> None
                  | Some (Inl e) \<Rightarrow> Some (Inl e)
                  | Some (Inr (ret_l, log_l)) \<Rightarrow>
                      if ret_l \<noteq> EXIT_SUCCESS \<and> errors_fatal
                      then Some (Inr (ret_l, Visit index # errors @ log_l))
                      else
                        (case descend depth b errors_fatal (right n) of
                           None \<Rightarrow> None
                         | Some (Inl e) \<Rightarrow> Some (Inl e)
                         | Some (Inr (ret_r, log_r)) \<Rightarrow>
                             Some (Inr
                               (if ret_r \<noteq> EXIT_SUCCESS then ret_r
                                else if ret_l \<noteq> EXIT_SUCCESS then ret_l
                                else if errors \<noteq> [] then EXIT_FAILURE else EXIT_SUCCESS,
                                Visit index # errors @ log_l @ log_r))))))"
  unfolding check_bvh_volumes.simps descend_def ..

declare check_bvh_volumes.simps(2) [simp del]

lemma check_bvh_volumes_success:
  assumes "check_bvh_volumes depth b errors_fatal i = Some (Inr (EXIT_SUCCESS, out))"
  shows "\<exists>d n. depth = Suc d \<and> bvh_at b i = Inr n \<and> compare_volumes b i n = Inr []
           \<and> (\<exists>out_l. descend d b errors_fatal (left n) = Some (Inr (EXIT_SUCCESS, out_l)))
           \<and> (\<exists>out_r. descend d b errors_fatal (right n) = Some (Inr (EXIT_SUCCESS, out_r)))"
proof (cases depth)
  case 0
  with assms show ?thesis by simp
next
  case (Suc d)
  with assms show ?thesis
    by (auto simp: check_bvh_volumes_Suc split: sum.splits option.splits if_splits prod.splits)
qed

lemma check_bvh_volumes_deeper:
  "check_bvh_volumes depth b errors_fatal i = Some r \<Longrightarrow>
   check_bvh_volumes (depth + k) b errors_fatal i = Some r"
proof (induction depth arbitrary: i r)
  case 0
  then show ?case by simp
next
  case (Suc d)
  have sub: "descend (d + k) b errors_fatal c = Some x"
    if "descend d b errors_fatal c = Some x" for c x
    using that by (cases c) (auto simp: descend_def dest: Suc.IH)
  show ?case
  proof (cases "bvh_at b i")
    case (Inl e)
    with Suc.prems show ?thesis
      by (simp add: check_bvh_volumes_Suc)
  next
    case n: (Inr n)
    show ?thesis
    proof (cases "compare_volumes b i n")
      case (Inl e)
      with Suc.prems n show ?thesis
        by (simp add: check_bvh_volumes_Suc)
    next
      case errors: (Inr errors)
      show ?thesis
      proof (cases "descend d b errors_fatal (left n)")
        case None
        with Suc.prems n errors show ?thesis
          by (simp add: check_bvh_volumes_Suc split: if_splits)
      next
        case l: (Some x)
        note l' = sub [OF l]
        show ?thesis
        proof (cases "descend d b errors_fatal (right n)")
          case None
          with Suc.prems n errors l l' show ?thesis
            by (auto simp: check_bvh_volumes_Suc split: if_splits sum.splits prod.splits)
        next
          case r: (Some y)
          note r' = sub [OF r]
          have "check_bvh_volumes (Suc (d + k)) b errors_fatal i =
                check_bvh_volumes (Suc d) b errors_fatal i"
            using n errors l l' r r'
            by (cases x; cases y) (auto simp: check_bvh_volumes_Suc)
          with Suc.prems show ?thesis
            by simp
        qed
      qed
    qed
  qed
qed

lemma visits_append: "visits (xs @ ys) = visits xs @ visits ys"
  by (induction xs rule: visits.induct) auto

lemma compare_volumes_no_visits:
  "compare_volumes b i n = Inr errors \<Longrightarrow> visits errors = []"
  by (auto simp: compare_volumes_def Let_def split: child.splits sum.splits if_splits)

lemma tree_at_Suc:
  "tree_at (Suc depth) b i =
     (if i < length b
      then (case child_tree depth b (left (b ! i)) of
              None \<Rightarrow> None
            | Some t_left \<Rightarrow>
                (case child_tree depth b (right (b ! i)) of
                   None \<Rightarrow> None
                 | Some t_right \<Rightarrow> Some (Inner i t_left t_right)))
      else None)"
  unfolding tree_at.simps child_tree_def ..

declare tree_at.simps(2) [simp del]

lemma tree_at_SomeD:
  assumes "tree_at depth b i = Some t"
  shows "\<exists>d t_left t_right. depth = Suc d \<and> i < length b
           \<and> child_tree d b (left (b ! i)) = Some t_left
           \<and> child_tree d b (right (b ! i)) = Some t_right
           \<and> t = Inner i t_left t_right"
proof (cases depth)
  case 0
  with assms show ?thesis by simp
next
  case (Suc d)
  with assms show ?thesis
    by (auto simp: tree_at_Suc split: if_splits option.splits)
qed

lemma child_tree_in_range:
  "child_tree depth b (Node_ref j) = Some t \<Longrightarrow> j < length b"
  by (auto simp: child_tree_def dest: tree_at_SomeD)

lemma compare_volumes_in_range:
  assumes "i < length b"
    and "\<And>l. left (b ! i) = Node_ref l \<Longrightarrow> l < length b"
    and "\<And>r. right (b ! i) = Node_ref r \<Longrightarrow> r < length b"
  shows "\<exists>errors. compare_volumes b i (b ! i) = Inr errors
           \<and> (errors \<noteq> [] \<longleftrightarrow> volume_violation b i)"
  using assms
  by (auto simp: compare_volumes_def volume_violation_def bvh_at_def Let_def split: child.splits)

lemma audit_follows_tree:
  "tree_at depth b i = Some t \<Longrightarrow>
     \<exists>out. check_bvh_volumes depth b False i =
             Some (Inr (if \<exists>j\<in>set (inner_nodes t). volume_violation b j
                        then EXIT_FAILURE else EXIT_SUCCESS, out))
           \<and> visits out = inner_nodes t"
proof (induction depth arbitrary: i t)
  case 0
  then show ?case by simp
next
  case (Suc d)
  let ?status = "\<lambda>t. if \<exists>j\<in>set (inner_nodes t). volume_violation b j
                      then EXIT_FAILURE else EXIT_SUCCESS"
  from Suc.prems obtain t_left t_right where i: "i < length b"
    and tl: "child_tree d b (left (b ! i)) = Some t_left"
    and tr: "child_tree d b (right (b ! i)) = Some t_right"
    and t: "t = Inner i t_left t_right"
    by (auto dest: tree_at_SomeD)
  have sub: "\<exists>out. descend d b False c = Some (Inr (?status tc, out)) \<and> visits out = inner_nodes tc"
    if "child_tree d b c = Some tc" for c tc
  proof (cases c)
    case (Node_ref j)
    with that have "tree_at d b j = Some tc"
      by (simp add: child_tree_def)
    from Suc.IH [OF this] Node_ref show ?thesis
      by (simp add: descend_def)
  next
    case (Leaf_ref k)
    with that show ?thesis
      by (auto simp: child_tree_def descend_def)
  qed
  from sub [OF tl] obtain out_l where
    l: "descend d b False (left (b ! i)) = Some (Inr (?status t_left, out_l))"
    and vl: "visits out_l = inner_nodes t_left"
    by blast
  from sub [OF tr] obtain out_r where
    r: "descend d b False (right (b ! i)) = Some (Inr (?status t_right, out_r))"
    and vr: "visits out_r = inner_nodes t_right"
    by blast
  have "l < length b" if "left (b ! i) = Node_ref l" for l
    using tl that by (auto dest: child_tree_in_range)
  moreover have "r < length b" if "right (b ! i) = Node_ref r" for r
    using tr that by (auto dest: child_tree_in_range)
  ultimately obtain errors where
    c: "compare_volumes b i (b ! i) = Inr errors"
    and e: "errors \<noteq> [] \<longleftrightarrow> volume_violation b i"
    using compare_volumes_in_range [OF i] by blast
  from c have ve: "visits errors = []"
    by (rule compare_volumes_no_visits)
  have at: "bvh_at b i = Inr (b ! i)"
    using i by (simp add: bvh_at_def)
  have run: "check_bvh_volumes (Suc d) b False i =
      Some (Inr (if ?status t_right \<noteq> EXIT_SUCCESS then ?status t_right
                 else if ?status t_left \<noteq> EXIT_SUCCESS then ?status t_left
                 else if errors \<noteq> [] then EXIT_FAILURE else EXIT_SUCCESS,
                 Visit i # errors @ out_l @ out_r))"
    by (simp only: check_bvh_volumes_Suc at c l r sum.case option.case prod.case simp_thms
        if_False)
  have status: "(if ?status t_right \<noteq> EXIT_SUCCESS then ?status t_right
                 else if ?status t_left \<noteq> EXIT_SUCCESS then ?status t_left
                 else if errors \<noteq> [] then EXIT_FAILURE else EXIT_SUCCESS) = ?status t"
    using e by (auto simp: t)
  have "visits (Visit i # errors @ out_l @ out_r) = inner_nodes t"
    by (simp add: visits_append ve vl vr t)
  with run status show ?case
    by simp
qed

text \<open>
  C3: one call of the audit under the fatal policy, on a node that is in the array and
  whose children that are internal nodes are in the array. (1) When the node has a local
  volume violation, with its left or with its right child, the call returns
  \<^verbatim>\<open>EXIT_FAILURE\<close> at once: something is reported and the only node visited is the node
  itself. (2) Without a local violation, a failure of the call on the left child is
  returned at once: what was visited is the node and what the left call visited, nothing
  of the right subtree. (3) Without a local violation and after a left subtree that
  succeeded, a failure of the call on the right child becomes the status of the caller,
  which returns at its end with everything the left and the right call did: nothing of
  the caller is skipped on the way, the call on the right child being its last statement.
\<close>

theorem fatal_audit_returns:
  assumes "index < length b"
    and "in_array b (left (b ! index))"
    and "in_array b (right (b ! index))"
  shows "(volume_violation b index \<longrightarrow>
            (\<exists>errors.
               check_bvh_volumes (Suc depth) b True index =
                 Some (Inr (EXIT_FAILURE, Visit index # errors))
               \<and> errors \<noteq> []
               \<and> visits (Visit index # errors) = [index]))
       \<and> (\<not> volume_violation b index \<longrightarrow> left (b ! index) = Node_ref l \<longrightarrow>
            check_bvh_volumes depth b True l = Some (Inr (EXIT_FAILURE, log_l)) \<longrightarrow>
            check_bvh_volumes (Suc depth) b True index =
              Some (Inr (EXIT_FAILURE, Visit index # log_l))
            \<and> visits (Visit index # log_l) = index # visits log_l)
       \<and> (\<not> volume_violation b index \<longrightarrow>
            descend depth b True (left (b ! index)) = Some (Inr (EXIT_SUCCESS, out_l)) \<longrightarrow>
            right (b ! index) = Node_ref r \<longrightarrow>
            check_bvh_volumes depth b True r = Some (Inr (EXIT_FAILURE, log_r)) \<longrightarrow>
            check_bvh_volumes (Suc depth) b True index =
              Some (Inr (EXIT_FAILURE, Visit index # out_l @ log_r)))"
proof -
  have at: "bvh_at b index = Inr (b ! index)"
    using assms(1) by (simp add: bvh_at_def)
  have "j < length b" if "left (b ! index) = Node_ref j" for j
    using assms(2) that by (simp add: in_array_def)
  moreover have "j < length b" if "right (b ! index) = Node_ref j" for j
    using assms(3) that by (simp add: in_array_def)
  ultimately obtain errors where
    c: "compare_volumes b index (b ! index) = Inr errors"
    and e: "errors \<noteq> [] \<longleftrightarrow> volume_violation b index"
    using compare_volumes_in_range [OF assms(1)] by blast
  from c have "visits errors = []"
    by (rule compare_volumes_no_visits)
  with at c e show ?thesis
    by (auto simp: check_bvh_volumes_Suc descend_def)
qed

text \<open>
  The three cases on examples: a violation with the left child and one with the right
  child of the root; a failure below the left child, after which node 2 is not visited;
  a failure below the right child, after node 2 was visited.
\<close>

theorem fatal_audit_returns_witness:
  "volume_violation inflated 0
   \<and> check_bvh_volumes (Suc (Suc 0)) inflated True 0 =
       Some (Inr (EXIT_FAILURE, [Visit 0, Left_Volume 0 1 1 8]))
   \<and> volume_violation inflated_right 0
   \<and> check_bvh_volumes (Suc (Suc 0)) inflated_right True 0 =
       Some (Inr (EXIT_FAILURE, [Visit 0, Right_Volume 0 2 1 8]))
   \<and> (\<exists>errors.
         check_bvh_volumes (Suc (Suc 0)) inflated_right True 0 =
           Some (Inr (EXIT_FAILURE, Visit 0 # errors))
         \<and> errors \<noteq> [] \<and> visits (Visit 0 # errors) = [0])
   \<and> \<not> volume_violation left_fails 0
   \<and> check_bvh_volumes (Suc (Suc 0)) left_fails True 0 =
       Some (Inr (EXIT_FAILURE, [Visit 0, Visit 1, Left_Volume 1 3 1 8]))
   \<and> \<not> volume_violation right_fails 0
   \<and> check_bvh_volumes (Suc (Suc 0)) right_fails True 0 =
       Some (Inr (EXIT_FAILURE, [Visit 0, Visit 2, Visit 1, Left_Volume 1 3 1 8]))"
proof -
  have v1: "volume_violation inflated 0"
    by (simp add: volume_violation_def inflated_def volumes)
  have i1: "0 < length inflated" "in_array inflated (left (inflated ! 0))"
    "in_array inflated (right (inflated ! 0))"
    by (simp_all add: inflated_def in_array_def)
  have run1: "check_bvh_volumes (Suc (Suc 0)) inflated True 0 =
       Some (Inr (EXIT_FAILURE, [Visit 0, Left_Volume 0 1 1 8]))"
    by (simp add: inflated_def check_bvh_volumes_Suc compare_volumes_def bvh_at_def volumes)
  have v2: "volume_violation inflated_right 0"
    by (simp add: volume_violation_def inflated_right_def volumes)
  have i2: "0 < length inflated_right" "in_array inflated_right (left (inflated_right ! 0))"
    "in_array inflated_right (right (inflated_right ! 0))"
    by (simp_all add: inflated_right_def in_array_def)
  have run2: "check_bvh_volumes (Suc (Suc 0)) inflated_right True 0 =
       Some (Inr (EXIT_FAILURE, [Visit 0, Right_Volume 0 2 1 8]))"
    by (simp add: inflated_right_def check_bvh_volumes_Suc compare_volumes_def bvh_at_def
        volumes)
  have v3: "\<not> volume_violation left_fails 0"
    by (simp add: volume_violation_def left_fails_def volumes)
  have i3: "0 < length left_fails" "in_array left_fails (left (left_fails ! 0))"
    "in_array left_fails (right (left_fails ! 0))"
    by (simp_all add: left_fails_def in_array_def)
  have l3: "left (left_fails ! 0) = Node_ref 1"
    by (simp add: left_fails_def)
  have f3: "check_bvh_volumes (Suc 0) left_fails True 1 =
      Some (Inr (EXIT_FAILURE, [Visit 1, Left_Volume 1 3 1 8]))"
    by (simp add: left_fails_def check_bvh_volumes_Suc compare_volumes_def bvh_at_def volumes)
  have v4: "\<not> volume_violation right_fails 0"
    by (simp add: volume_violation_def right_fails_def volumes)
  have i4: "0 < length right_fails" "in_array right_fails (left (right_fails ! 0))"
    "in_array right_fails (right (right_fails ! 0))"
    by (simp_all add: right_fails_def in_array_def)
  have l4: "descend (Suc 0) right_fails True (left (right_fails ! 0)) =
      Some (Inr (EXIT_SUCCESS, [Visit 2]))"
    by (simp add: right_fails_def descend_def check_bvh_volumes_Suc compare_volumes_def
        bvh_at_def volumes)
  have r4: "right (right_fails ! 0) = Node_ref 1"
    by (simp add: right_fails_def)
  have f4: "check_bvh_volumes (Suc 0) right_fails True 1 =
      Some (Inr (EXIT_FAILURE, [Visit 1, Left_Volume 1 3 1 8]))"
    by (simp add: right_fails_def check_bvh_volumes_Suc compare_volumes_def bvh_at_def volumes)
  from fatal_audit_returns [OF i2, where depth = "Suc 0"] v2
  have part1: "\<exists>errors.
         check_bvh_volumes (Suc (Suc 0)) inflated_right True 0 =
           Some (Inr (EXIT_FAILURE, Visit 0 # errors))
         \<and> errors \<noteq> [] \<and> visits (Visit 0 # errors) = [0]"
    by blast
  from fatal_audit_returns [OF i3, where depth = "Suc 0" and l = 1
      and log_l = "[Visit 1, Left_Volume 1 3 1 8]"] v3 l3 f3
  have part2: "check_bvh_volumes (Suc (Suc 0)) left_fails True 0 =
       Some (Inr (EXIT_FAILURE, [Visit 0, Visit 1, Left_Volume 1 3 1 8]))"
    by simp
  from fatal_audit_returns [OF i4, where depth = "Suc 0" and out_l = "[Visit 2]" and r = 1
      and log_r = "[Visit 1, Left_Volume 1 3 1 8]"] v4 l4 r4 f4
  have part3: "check_bvh_volumes (Suc (Suc 0)) right_fails True 0 =
       Some (Inr (EXIT_FAILURE, [Visit 0, Visit 2, Visit 1, Left_Volume 1 3 1 8]))"
    by simp
  from v1 run1 v2 run2 part1 v3 part2 v4 part3 show ?thesis
    by blast
qed

lemma count_list_distinct:
  "distinct xs \<Longrightarrow> count_list xs x = (if x \<in> set xs then 1 else 0)"
  by (induction xs) auto

text \<open>
  C8: when the node array encodes a tree below the root, with every internal node
  occurring once, the audit under the non-fatal policy returns, with the same result for
  every deeper bound on the recursion; it was called on the internal nodes of the tree,
  parent first, each of them once and on no other node (so, when the tree holds every
  node of the array, on every node of the array once); and it returns
  \<^verbatim>\<open>EXIT_FAILURE\<close> exactly when some node of the tree has a volume violation, that is, a
  child that is an internal node and whose computed volume the code's comparison
  \<^verbatim>\<open>parent_volume < child_volume\<close> finds larger. Nothing is assumed about the number
  of violations.
\<close>

theorem nonfatal_audit_visits_tree:
  assumes "tree_at depth b 0 = Some t" and "distinct (inner_nodes t)"
  shows "\<exists>status out.
           (\<forall>k. check_bvh_volumes (depth + k) b False 0 = Some (Inr (status, out)))
         \<and> visits out = inner_nodes t
         \<and> (\<forall>i. count_list (visits out) i = (if i \<in> set (inner_nodes t) then 1 else 0))
         \<and> (set (inner_nodes t) = {0..<length b} \<longrightarrow>
              (\<forall>i<length b. count_list (visits out) i = 1))
         \<and> (status = EXIT_FAILURE \<longleftrightarrow> (\<exists>i\<in>set (inner_nodes t). volume_violation b i))"
proof -
  from audit_follows_tree [OF assms(1)] obtain out where
    run: "check_bvh_volumes depth b False 0 =
            Some (Inr (if \<exists>j\<in>set (inner_nodes t). volume_violation b j
                       then EXIT_FAILURE else EXIT_SUCCESS, out))"
    and v: "visits out = inner_nodes t"
    by blast
  from run have deeper: "check_bvh_volumes (depth + k) b False 0 =
            Some (Inr (if \<exists>j\<in>set (inner_nodes t). volume_violation b j
                       then EXIT_FAILURE else EXIT_SUCCESS, out))" for k
    by (rule check_bvh_volumes_deeper)
  from assms(2) have once:
    "\<forall>i. count_list (inner_nodes t) i = (if i \<in> set (inner_nodes t) then 1 else 0)"
    by (simp add: count_list_distinct)
  then have "set (inner_nodes t) = {0..<length b} \<longrightarrow>
      (\<forall>i<length b. count_list (inner_nodes t) i = 1)"
    by simp
  with deeper v once show ?thesis
    by auto
qed

text \<open>
  The hypotheses hold on \<open>inflated\<close>, whose root is smaller than its left child: the
  three nodes are visited once each and \<^verbatim>\<open>EXIT_FAILURE\<close> is returned.
\<close>

theorem nonfatal_audit_visits_tree_witness:
  "tree_at (Suc (Suc 0)) inflated 0 =
     Some (Inner 0 (Inner 1 (Leaf 0) (Leaf 1)) (Inner 2 (Leaf 2) (Leaf 3)))
   \<and> check_bvh_volumes (Suc (Suc 0)) inflated False 0 =
       Some (Inr (EXIT_FAILURE, [Visit 0, Left_Volume 0 1 1 8, Visit 1, Visit 2]))
   \<and> volume_violation inflated 0
   \<and> (\<exists>status out.
         (\<forall>k. check_bvh_volumes (Suc (Suc 0) + k) inflated False 0 = Some (Inr (status, out)))
       \<and> visits out = [0, 1, 2] \<and> status = EXIT_FAILURE)"
proof -
  have t: "tree_at (Suc (Suc 0)) inflated 0 =
      Some (Inner 0 (Inner 1 (Leaf 0) (Leaf 1)) (Inner 2 (Leaf 2) (Leaf 3)))"
    by (simp add: inflated_def tree_at_Suc child_tree_def)
  have d: "distinct (inner_nodes (Inner 0 (Inner 1 (Leaf 0) (Leaf 1)) (Inner 2 (Leaf 2) (Leaf 3))))"
    by simp
  have run: "check_bvh_volumes (Suc (Suc 0)) inflated False 0 =
       Some (Inr (EXIT_FAILURE, [Visit 0, Left_Volume 0 1 1 8, Visit 1, Visit 2]))"
    by (simp add: inflated_def check_bvh_volumes_Suc descend_def compare_volumes_def
        bvh_at_def volumes)
  have v: "volume_violation inflated 0"
    by (simp add: volume_violation_def inflated_def volumes)
  from nonfatal_audit_visits_tree [OF t d] obtain status out where
    all: "\<forall>k. check_bvh_volumes (Suc (Suc 0) + k) inflated False 0 = Some (Inr (status, out))"
    and vs: "visits out = [0, 1, 2]"
    and st: "status = EXIT_FAILURE \<longleftrightarrow>
      (\<exists>i\<in>set [0, 1, 2]. volume_violation inflated i)"
    by auto
  from st v have "status = EXIT_FAILURE"
    by simp
  with all vs t run v show ?thesis
    by blast
qed

section \<open>Properties of the validator\<close>

lemmas phase1_simps =
  check_bvh_def count_nodes.simps count_node_refs_def check_node_counts.simps
  count_leaves.simps bvh_index_def count_leaf_refs_def increment_at_def
  check_leaf_counts.simps

lemmas phase2_simps =
  check_bvh_volumes.simps(2) bvh_at_def compare_volumes_def volumes

text \<open>
  The sweeps keep the size of the counter vectors, so the checking loops read
  \<^verbatim>\<open>node_counts[i]\<close> and \<^verbatim>\<open>leaf_counts[i]\<close> inside them.
\<close>

lemma increment_at_length:
  "increment_at counts k = Inr counts' \<Longrightarrow> length counts' = length counts"
  by (auto simp: increment_at_def split: if_splits)

lemma count_node_refs_length:
  "count_node_refs n counts = Inr counts' \<Longrightarrow> length counts' = length counts"
  by (auto simp: count_node_refs_def increment_at_def split: child.splits sum.splits if_splits)

lemma count_leaf_refs_length:
  "count_leaf_refs n counts = Inr counts' \<Longrightarrow> length counts' = length counts"
  by (auto simp: count_leaf_refs_def increment_at_def split: child.splits sum.splits if_splits)

lemma count_nodes_length:
  "count_nodes b i counts = Inr counts' \<Longrightarrow> length counts' = length counts"
proof (induction b i counts rule: count_nodes.induct)
  case (1 b i node_counts)
  note unfolded = "1.prems" [unfolded count_nodes.simps [of b i node_counts]]
  with "1.IH" show ?case
    by (auto split: if_splits sum.splits dest: count_node_refs_length)
qed

lemma count_leaves_length:
  "count_leaves past_end b i counts = Inr counts' \<Longrightarrow> length counts' = length counts"
proof (induction past_end b i counts rule: count_leaves.induct)
  case (1 past_end b i leaf_counts)
  note unfolded = "1.prems" [unfolded count_leaves.simps [of past_end b i leaf_counts]]
  with "1.IH" show ?case
    by (auto split: if_splits sum.splits dest: count_leaf_refs_length)
qed

lemma bvh_index_past_end_faults:
  "bvh_index None b (length b) = Inl (Node_Out_Of_Bounds (length b))"
  by (simp add: bvh_index_def)

lemma count_leaves_faults:
  fixes b :: "'f node list"
  shows "i \<le> length b \<Longrightarrow> \<exists>e. count_leaves None b i leaf_counts = Inl e"
proof (induction "None :: 'f node option" b i leaf_counts rule: count_leaves.induct)
  case (1 b i leaf_counts)
  show ?case
  proof (cases "i = length b")
    case True
    then show ?thesis
      by (subst count_leaves.simps) (simp add: bvh_index_def)
  next
    case False
    with 1(2) have lt: "i < length b" by simp
    then have idx: "bvh_index None b i = Inr (b ! i)"
      by (simp add: bvh_index_def)
    show ?thesis
    proof (cases "count_leaf_refs (b ! i) leaf_counts")
      case (Inl e)
      with lt idx show ?thesis
        by (subst count_leaves.simps) simp
    next
      case (Inr counts)
      from lt have "Suc i \<le> length b" by simp
      with 1(1) [OF _ idx Inr] lt obtain e where "count_leaves None b (Suc i) counts = Inl e"
        by auto
      with lt idx Inr show ?thesis
        by (subst count_leaves.simps) simp
    qed
  qed
qed

text \<open>
  C1 (the code departs from it): the sweep that fills the leaf counters runs its index up
  to the number of nodes included, so it reads \<^verbatim>\<open>bvh[bvh.size()]\<close>, one past the last
  internal node. When that read faults the sweep never completes, whatever the hierarchy;
  on the hierarchy of one node over the leaves 0 and 1, the fault is the read of node 1,
  and it is how \<^verbatim>\<open>check_bvh\<close> ends under either policy.
\<close>

theorem leaf_sweep_reads_past_the_nodes:
  "(\<exists>e. count_leaves None b 0 leaf_counts = Inl e)
   \<and> count_leaves None two_leaves 0 [0, 0] = Inl (Node_Out_Of_Bounds 1)
   \<and> check_bvh depth None two_leaves errors_fatal = Some (Inl (Node_Out_Of_Bounds 1))"
proof -
  have sweep: "count_leaves None two_leaves 0 [0, 0] = Inl (Node_Out_Of_Bounds 1)"
    by (simp add: two_leaves_def count_leaves.simps bvh_index_def count_leaf_refs_def
        increment_at_def)
  have "check_bvh depth None two_leaves errors_fatal = Some (Inl (Node_Out_Of_Bounds 1))"
    by (simp add: check_bvh_def two_leaves_def count_nodes.simps count_node_refs_def
        check_node_counts.simps count_leaves.simps bvh_index_def count_leaf_refs_def
        increment_at_def)
  with sweep count_leaves_faults [of 0 b leaf_counts] show ?thesis
    by simp
qed

text \<open>
  C10: on a hierarchy without internal nodes \<^verbatim>\<open>check_bvh\<close> returns no status: it ends
  in the read of \<^verbatim>\<open>node_counts[0]\<close> outside the empty counter vector, under either
  policy and whatever lies behind the node array. The two later reads of node 0 are
  outside the node array as well: the one of the leaf sweep, and the checked one at the
  start of \<^verbatim>\<open>check_bvh_volumes\<close>, which throws.
\<close>

theorem check_bvh_without_nodes:
  "check_bvh depth past_end [] errors_fatal = Some (Inl (Counter_Out_Of_Bounds 0))
   \<and> count_leaves None [] 0 [0] = Inl (Node_Out_Of_Bounds 0)
   \<and> check_bvh_volumes (Suc depth) [] errors_fatal 0 = Some (Inl (Out_Of_Range 0))"
  by (simp add: check_bvh_def count_nodes.simps count_leaves.simps bvh_index_def bvh_at_def
      check_bvh_volumes.simps)

lemma check_node_counts_Returned:
  "check_node_counts errors_fatal node_counts i errors out = Returned status out' \<Longrightarrow>
     status = EXIT_FAILURE"
proof (induction errors_fatal node_counts i errors out rule: check_node_counts.induct)
  case (1 errors_fatal node_counts i errors out)
  note unfolded = "1.prems" [unfolded
      check_node_counts.simps [of errors_fatal node_counts i errors out]]
  with "1.IH" show ?case
    by (auto simp: Let_def split: if_splits)
qed

lemma check_leaf_counts_Returned:
  "check_leaf_counts errors_fatal b leaf_counts i errors out = Returned status out' \<Longrightarrow>
     status = EXIT_FAILURE"
proof (induction errors_fatal b leaf_counts i errors out rule: check_leaf_counts.induct)
  case (1 errors_fatal b leaf_counts i errors out)
  note unfolded = "1.prems" [unfolded
      check_leaf_counts.simps [of errors_fatal b leaf_counts i errors out]]
  with "1.IH" show ?case
    by (auto simp: Let_def split: if_splits)
qed

lemma check_node_counts_nonfatal:
  "\<exists>errors' out'. check_node_counts False node_counts i errors out = Completed errors' out'"
proof (induction "False" node_counts i errors out rule: check_node_counts.induct)
  case (1 node_counts i errors out)
  show ?case
  proof (cases "i < length node_counts")
    case False
    then show ?thesis
      by (subst check_node_counts.simps) simp
  next
    case True
    show ?thesis
    proof (cases "node_counts ! i \<noteq> 1")
      case True
      with 1(1) [OF \<open>i < length node_counts\<close> refl True] \<open>i < length node_counts\<close>
      show ?thesis
        by (subst check_node_counts.simps) (simp add: Let_def)
    next
      case False
      with 1(2) [OF \<open>i < length node_counts\<close> refl False] \<open>i < length node_counts\<close>
      show ?thesis
        by (subst check_node_counts.simps) (simp add: Let_def)
    qed
  qed
qed

lemma check_bvh_success_sweep:
  assumes "check_bvh depth past_end b errors_fatal = Some (Inr (EXIT_SUCCESS, out))"
  shows "\<exists>leaf_counts. count_leaves past_end b 0 (replicate (length b + 1) 0) = Inr leaf_counts"
  using assms
  by (auto simp: check_bvh_def Let_def
      split: sum.splits if_splits loop_end.splits option.splits prod.splits
      dest: check_node_counts_Returned check_leaf_counts_Returned)

lemma check_bvh_faulting_read_no_success:
  "check_bvh depth None b errors_fatal \<noteq> Some (Inr (EXIT_SUCCESS, out))"
proof
  assume "check_bvh depth None b errors_fatal = Some (Inr (EXIT_SUCCESS, out))"
  then obtain leaf_counts where
    "count_leaves None b 0 (replicate (length b + 1) 0) = Inr leaf_counts"
    by (auto dest: check_bvh_success_sweep)
  moreover obtain e where "count_leaves None b 0 (replicate (length b + 1) 0) = Inl e"
    using count_leaves_faults [of 0 b] by auto
  ultimately show False
    by simp
qed

lemma check_bvh_nonfatal_faulting_read:
  fixes b :: "'f::{minus,times,ord} node list"
  shows "\<exists>e. check_bvh depth None b False = Some (Inl e)"
proof -
  obtain e where sweep: "count_leaves None b 0 (replicate (length b + 1) 0) = Inl e"
    using count_leaves_faults [of 0 b] by auto
  show ?thesis
  proof (cases "count_nodes b 0 (replicate (length b) 0)")
    case (Inl e')
    then show ?thesis
      by (simp add: check_bvh_def)
  next
    case (Inr node_counts)
    obtain errors' and out' :: "'f event list" where
      "check_node_counts False node_counts 1 0
         (if node_counts ! 0 > 0 then [Root_Referenced (node_counts ! 0)] else []) =
       Completed errors' out'"
      using check_node_counts_nonfatal by blast
    with Inr sweep show ?thesis
      by (simp add: check_bvh_def Let_def)
  qed
qed

lemma check_bvh_success:
  assumes "check_bvh depth past_end b errors_fatal = Some (Inr (EXIT_SUCCESS, out))"
  shows "\<exists>out'. check_bvh_volumes depth b errors_fatal 0 = Some (Inr (EXIT_SUCCESS, out'))"
  using assms
  by (auto simp: check_bvh_def Let_def
      split: sum.splits if_splits loop_end.splits option.splits prod.splits
      dest: check_node_counts_Returned check_leaf_counts_Returned)

lemma success_covers_reachable:
  "reachable b i j \<Longrightarrow>
   check_bvh_volumes depth b errors_fatal i = Some (Inr (EXIT_SUCCESS, out)) \<Longrightarrow>
   j < length b \<and> compare_volumes b j (b ! j) = Inr []"
proof (induction arbitrary: depth out rule: reachable.induct)
  case (here i)
  then show ?case
    by (auto simp: bvh_at_def split: if_splits dest!: check_bvh_volumes_success)
next
  case (through_left i l j)
  from check_bvh_volumes_success [OF through_left.prems] through_left.hyps(1,2)
  obtain d out_l where "check_bvh_volumes d b errors_fatal l = Some (Inr (EXIT_SUCCESS, out_l))"
    by (auto simp: bvh_at_def descend_def)
  then show ?case
    by (rule through_left.IH)
next
  case (through_right i r j)
  from check_bvh_volumes_success [OF through_right.prems] through_right.hyps(1,2)
  obtain d out_r where "check_bvh_volumes d b errors_fatal r = Some (Inr (EXIT_SUCCESS, out_r))"
    by (auto simp: bvh_at_def descend_def)
  then show ?case
    by (rule through_right.IH)
qed

lemma compare_volumes_none:
  assumes "compare_volumes b j n = Inr []"
    and "left n = Node_ref c \<or> right n = Node_ref c"
  shows "c < length b \<and> \<not> volume_of (box n) < volume_of (box (b ! c))"
  using assms
  by (auto simp: compare_volumes_def bvh_at_def Let_def
      split: child.splits sum.splits if_splits)

text \<open>
  C7, amended: whenever \<^verbatim>\<open>check_bvh\<close> returns \<^verbatim>\<open>EXIT_SUCCESS\<close>, every node \<open>n\<close> that
  the child references reach from the root is in the array, and for each child \<open>c\<close> of
  \<open>n\<close> that is an internal node, \<open>c\<close> is in the array and the comparison the code makes,
  volume of \<open>n\<close> \<^verbatim>\<open><\<close> volume of \<open>c\<close> on the computed volumes, is false. Where \<^verbatim>\<open><\<close> is
  a linear order on the two volumes (neither is a NaN), this is: the volume of \<open>c\<close> is
  at most the volume of \<open>n\<close>. Leaf children are not compared.
\<close>

theorem success_bounds_reachable_volumes:
  assumes "check_bvh depth past_end b errors_fatal = Some (Inr (EXIT_SUCCESS, out))"
    and "reachable b 0 n"
    and "left (b ! n) = Node_ref c \<or> right (b ! n) = Node_ref c"
  shows "n < length b \<and> c < length b
       \<and> \<not> volume_of (box (b ! n)) < volume_of (box (b ! c))"
proof -
  from assms(1) obtain out' where
    "check_bvh_volumes depth b errors_fatal 0 = Some (Inr (EXIT_SUCCESS, out'))"
    by (auto dest: check_bvh_success)
  with assms(2) have "n < length b \<and> compare_volumes b n (b ! n) = Inr []"
    by (rule success_covers_reachable)
  with assms(3) show ?thesis
    by (auto dest: compare_volumes_none)
qed

text \<open>
  The hypotheses hold on the hierarchy over three leaves, behind which lie zero bytes:
  the root has volume 8 and its child volume 1.
\<close>

theorem success_bounds_reachable_volumes_witness:
  "check_bvh (Suc (Suc 0)) (Some blank_node) three_leaves False =
     Some (Inr (EXIT_SUCCESS, [Visit 0, Visit 1]))
   \<and> reachable three_leaves 0 0
   \<and> left (three_leaves ! 0) = Node_ref 1
   \<and> \<not> volume_of (box (three_leaves ! 0)) < volume_of (box (three_leaves ! 1))"
proof -
  have run: "check_bvh (Suc (Suc 0)) (Some blank_node) three_leaves False =
     Some (Inr (EXIT_SUCCESS, [Visit 0, Visit 1]))"
    by (simp add: three_leaves_def blank_node_def phase1_simps phase2_simps)
  have reach: "reachable three_leaves 0 0"
    by (rule reachable.here)
  have child: "left (three_leaves ! 0) = Node_ref 1 \<or> right (three_leaves ! 0) = Node_ref 1"
    by (simp add: three_leaves_def)
  from success_bounds_reachable_volumes [OF run reach child] run reach show ?thesis
    by (simp add: three_leaves_def)
qed

text \<open>
  C7 as stated fails: in \<open>detached_cycle\<close> every counter is as required and the root
  has two leaves, so \<^verbatim>\<open>check_bvh\<close> returns \<^verbatim>\<open>EXIT_SUCCESS\<close> under both policies
  after visiting node 0 alone, while node 2, a child of node 1, is larger than node 1
  (volume 8 against volume 1).
\<close>

theorem success_with_unreachable_violation:
  "check_bvh (Suc 0) (Some blank_node) detached_cycle False =
     Some (Inr (EXIT_SUCCESS, [Visit 0]))
   \<and> check_bvh (Suc 0) (Some blank_node) detached_cycle True =
     Some (Inr (EXIT_SUCCESS, [Visit 0]))
   \<and> left (detached_cycle ! 1) = Node_ref 2
   \<and> volume_of (box (detached_cycle ! 1)) < volume_of (box (detached_cycle ! 2))
   \<and> \<not> volume_of (box (detached_cycle ! 2)) \<le> volume_of (box (detached_cycle ! 1))"
  by (simp add: detached_cycle_def blank_node_def phase1_simps phase2_simps)

text \<open>
  C2 (the code departs from it): in \<open>root_referenced\<close> node 2 refers to the root. Under
  the fatal policy the violation is reported and \<^verbatim>\<open>EXIT_FAILURE\<close> returned. Under the
  non-fatal policy it is reported and not counted, and the run goes on into the leaf
  sweep and its read behind the array: when that read faults nothing is returned; when
  it yields zero bytes, \<^verbatim>\<open>EXIT_FAILURE\<close> is returned for leaf 3 only; when it yields a
  node whose left reference is leaf 3, phase 2 runs and \<^verbatim>\<open>EXIT_SUCCESS\<close> is returned.
\<close>

theorem root_reference_alone_is_not_counted:
  "check_bvh depth past_end root_referenced True = Some (Inr (EXIT_FAILURE, [Root_Referenced 1]))
   \<and> check_bvh depth None root_referenced False = Some (Inl (Node_Out_Of_Bounds 3))
   \<and> check_bvh depth (Some blank_node) root_referenced False =
       Some (Inr (EXIT_FAILURE, [Root_Referenced 1, Leaf_Referenced 3 0]))
   \<and> check_bvh (Suc depth) (Some stray_leaf) root_referenced False =
       Some (Inr (EXIT_SUCCESS, [Root_Referenced 1, Visit 0]))"
  by (simp add: root_referenced_def blank_node_def stray_leaf_def phase1_simps phase2_simps)

text \<open>
  C6 (the code departs from it): \<open>two_leaves\<close> is a valid hierarchy: no node is
  referenced, each leaf is referenced once by the only node, the audit of the volumes
  succeeds. \<^verbatim>\<open>check_bvh\<close> does not return \<^verbatim>\<open>EXIT_SUCCESS\<close> on it when the read behind
  the array faults, nor when that read yields a node with a leaf reference; it does when
  the read yields zero bytes. When the read faults, \<^verbatim>\<open>check_bvh\<close> returns
  \<^verbatim>\<open>EXIT_SUCCESS\<close> on no hierarchy at all.
\<close>

theorem valid_hierarchy_is_not_accepted:
  "count_nodes two_leaves 0 [0] = Inr [0]
   \<and> count_leaf_refs (two_leaves ! 0) [0, 0] = Inr [1, 1]
   \<and> check_bvh_volumes (Suc depth) two_leaves errors_fatal 0 =
       Some (Inr (EXIT_SUCCESS, [Visit 0]))
   \<and> check_bvh (Suc depth) None two_leaves errors_fatal = Some (Inl (Node_Out_Of_Bounds 1))
   \<and> check_bvh (Suc depth) (Some \<lparr>box = unit_box, left = Leaf_ref 0, right = Node_ref 0\<rparr>)
         two_leaves False =
       Some (Inr (EXIT_FAILURE, [Leaf_Referenced 0 2]))
   \<and> check_bvh (Suc depth) (Some blank_node) two_leaves errors_fatal =
       Some (Inr (EXIT_SUCCESS, [Visit 0]))
   \<and> check_bvh any_depth None b any_policy \<noteq> Some (Inr (EXIT_SUCCESS, out))"
  using check_bvh_faulting_read_no_success [of any_depth b any_policy out]
  by (simp add: two_leaves_def blank_node_def phase1_simps phase2_simps)

text \<open>
  C9 (the code departs from it): under the non-fatal policy, on \<open>duplicate_leaf\<close> the
  sweep over the leaf references ends in the read behind the array and no cumulative
  \<^verbatim>\<open>EXIT_FAILURE\<close> is returned; when that read faults, this is so on every hierarchy
  (when it yields zero bytes, both violations are reported and \<^verbatim>\<open>EXIT_FAILURE\<close> is
  returned). And on \<open>root_referenced\<close>, with a node behind the array that refers to leaf 3, the
  reference to the root is reported and phase 2 runs all the same.
\<close>

theorem violations_without_failure:
  "check_bvh depth None duplicate_leaf False = Some (Inl (Node_Out_Of_Bounds 1))
   \<and> (\<exists>e. check_bvh any_depth None b False = Some (Inl e))
   \<and> check_bvh depth (Some blank_node) duplicate_leaf False =
       Some (Inr (EXIT_FAILURE, [Leaf_Referenced 0 2, Leaf_Referenced 1 0]))
   \<and> (\<exists>out. check_bvh (Suc depth) (Some stray_leaf) root_referenced False =
               Some (Inr (EXIT_SUCCESS, out))
             \<and> Root_Referenced 1 \<in> set out \<and> visits out = [0])"
  using check_bvh_nonfatal_faulting_read [of any_depth b]
  by (simp add: duplicate_leaf_def root_referenced_def stray_leaf_def blank_node_def
      phase1_simps phase2_simps)

end
